theory Spec2Isabelle
  imports Complex_Main
begin

section \<open>Errors and dates\<close>

text \<open>
  The exceptions that the modelled functions can raise. Every one of them is a Python
  built-in exception; the program defines no exception class of its own.
\<close>

datatype error = UnboundLocalError | OverflowError | AttributeError | ValueError | IndexError

text \<open>
  A \<open>datetime.datetime\<close> at midnight is represented by its proleptic Gregorian ordinal
  (\<open>toordinal()\<close>): 1 is 0001-01-01 and 3652059 is 9999-12-31, the smallest and the
  largest date of the type. \<open>weekday()\<close> is 0 for Monday up to 6 for Sunday.
  Adding a \<open>timedelta\<close> that leaves the range raises \<open>OverflowError\<close>.
\<close>

type_synonym date = int

definition MINORD :: int where
  "MINORD = 1"

definition MAXORD :: int where
  "MAXORD = 3652059"

definition valid_date :: "date \<Rightarrow> bool" where
  "valid_date d \<longleftrightarrow> MINORD \<le> d \<and> d \<le> MAXORD"

definition weekday :: "date \<Rightarrow> int" where
  "weekday d = (d + 6) mod 7"

definition add_days :: "date \<Rightarrow> int \<Rightarrow> error + date" where
  "add_days d k = (if MINORD \<le> d + k \<and> d + k \<le> MAXORD then Inr (d + k) else Inl OverflowError)"

text \<open>
  A \<open>for\<close> loop over a list of indices: the body maps the index and the loop state to a
  new state or raises, and the first exception ends the loop. \<open>py_range n\<close> is
  \<open>range(n)\<close>, empty when \<open>n \<le> 0\<close>.
\<close>

fun for_each :: "('i \<Rightarrow> 's \<Rightarrow> error + 's) \<Rightarrow> 'i list \<Rightarrow> 's \<Rightarrow> error + 's" where
  "for_each body [] s = Inr s"
| "for_each body (i # rest) s =
     (case body i s of Inl e \<Rightarrow> Inl e | Inr s' \<Rightarrow> for_each body rest s')"

definition py_range :: "int \<Rightarrow> nat list" where
  "py_range n = [0..<nat n]"

section \<open>Business-day arithmetic (MCVaR\_Widgets.py)\<close>

text \<open>
  The two leading \<open>if\<close> statements of \<open>getWeekdaysOut\<close> and \<open>getNumDays\<close>: a Saturday
  moves two days on, then a Sunday one day on. They are two separate statements, so the
  second tests the date the first has produced.
\<close>

definition snap_forward :: "date \<Rightarrow> error + date" where
  "snap_forward start_date =
     (case (if weekday start_date = 5 then add_days start_date 2 else Inr start_date) of
        Inl e \<Rightarrow> Inl e
      | Inr s \<Rightarrow> (if weekday s = 6 then add_days s 1 else Inr s))"

text \<open>
  The two leading \<open>if\<close> statements of \<open>getWeekdaysBack\<close>: a Saturday moves one day back,
  then a Sunday two days back.
\<close>

definition snap_backward :: "date \<Rightarrow> error + date" where
  "snap_backward start_date =
     (case (if weekday start_date = 5 then add_days start_date (- 1) else Inr start_date) of
        Inl e \<Rightarrow> Inl e
      | Inr s \<Rightarrow> (if weekday s = 6 then add_days s (- 2) else Inr s))"

text \<open>
  The body of the loop of \<open>getWeekdaysOut\<close>. The local variable \<open>curr_date\<close> is unbound
  (\<open>None\<close>) until the iteration with \<open>i = 0\<close> assigns it; reading it unbound raises
  \<open>UnboundLocalError\<close>.
\<close>

definition out_body :: "date \<Rightarrow> nat \<Rightarrow> date option \<Rightarrow> error + date option" where
  "out_body start_date i curr_date =
     (case (if i = 0 then Some start_date else curr_date) of
        None \<Rightarrow> Inl UnboundLocalError
      | Some c \<Rightarrow>
          (case add_days c 1 of
             Inl e \<Rightarrow> Inl e
           | Inr next_date \<Rightarrow>
               (case (if weekday next_date = 5 then add_days c 3 else Inr next_date) of
                  Inl e \<Rightarrow> Inl e
                | Inr next_date' \<Rightarrow> Inr (Some next_date'))))"

text \<open>
  \<open>HistWindowSelect.getWeekdaysOut\<close>; \<open>PredWindowSelect.getWeekdaysOut\<close> has the same
  text. The final \<open>return(curr_date)\<close> reads the local variable, which is still unbound
  when the loop has not run.
\<close>

definition getWeekdaysOut :: "date \<Rightarrow> int \<Rightarrow> error + date" where
  "getWeekdaysOut start_date days_out =
     (case snap_forward start_date of
        Inl e \<Rightarrow> Inl e
      | Inr s \<Rightarrow>
          (case for_each (out_body s) (py_range days_out) None of
             Inl e \<Rightarrow> Inl e
           | Inr None \<Rightarrow> Inl UnboundLocalError
           | Inr (Some curr_date) \<Rightarrow> Inr curr_date))"

definition back_body :: "date \<Rightarrow> nat \<Rightarrow> date option \<Rightarrow> error + date option" where
  "back_body start_date i curr_date =
     (case (if i = 0 then Some start_date else curr_date) of
        None \<Rightarrow> Inl UnboundLocalError
      | Some c \<Rightarrow>
          (case add_days c (- 1) of
             Inl e \<Rightarrow> Inl e
           | Inr next_date \<Rightarrow>
               (case (if weekday next_date = 6 then add_days c (- 3) else Inr next_date) of
                  Inl e \<Rightarrow> Inl e
                | Inr next_date' \<Rightarrow> Inr (Some next_date'))))"

text \<open>\<open>HistWindowSelect.getWeekdaysBack\<close>.\<close>

definition getWeekdaysBack :: "date \<Rightarrow> int \<Rightarrow> error + date" where
  "getWeekdaysBack start_date days_back =
     (case snap_backward start_date of
        Inl e \<Rightarrow> Inl e
      | Inr s \<Rightarrow>
          (case for_each (back_body s) (py_range days_back) None of
             Inl e \<Rightarrow> Inl e
           | Inr None \<Rightarrow> Inl UnboundLocalError
           | Inr (Some curr_date) \<Rightarrow> Inr curr_date))"

text \<open>
  The \<open>while\<close> loop of \<open>PredWindowSelect.getNumDays\<close>. Each round adds one day, which
  raises \<open>OverflowError\<close> past 9999-12-31, so the distance to that date bounds the
  number of rounds.
\<close>

function count_loop :: "date \<Rightarrow> date \<Rightarrow> int \<Rightarrow> error + int" where
  "count_loop curr_date end_date days =
     (if curr_date \<noteq> end_date then
        (case add_days curr_date 1 of
           Inl e \<Rightarrow> Inl e
         | Inr c \<Rightarrow>
             (if weekday c = 5 then count_loop c end_date days
              else if weekday c = 6 then count_loop c end_date days
              else count_loop c end_date (days + 1)))
      else Inr days)"
  by pat_completeness auto
termination
  by (relation "measure (\<lambda>(c, e, d). nat (MAXORD - c))")
     (auto simp: add_days_def split: if_splits)

text \<open>
  \<open>PredWindowSelect.getNumDays\<close>, as a function of the two dates that it reads from the
  widgets.
\<close>

definition getNumDays :: "date \<Rightarrow> date \<Rightarrow> error + int" where
  "getNumDays start_date end_date =
     (case snap_forward start_date of
        Inl e \<Rightarrow> Inl e
      | Inr s \<Rightarrow> count_loop s end_date 0)"

section \<open>The historical window widget (MCVaR\_Widgets.py)\<close>

text \<open>
  A \<open>QDateEdit\<close> holds a date and the range in which Qt keeps it. The state of a
  \<open>HistWindowSelect\<close> is its two date editors and the values that its signal
  \<open>end_signal\<close> has emitted so far, oldest first; the slots connected to that signal
  are the dependents of the end date.
\<close>

record QDateEdit =
  de_date :: date
  de_minimum :: date
  de_maximum :: date

record HistWindowSelect =
  deStart :: QDateEdit
  deEnd :: QDateEdit
  end_signal :: "date list"

text \<open>
  The part of Qt that the widget relies on, after \<open>QAbstractSpinBoxPrivate\<close> and
  \<open>QDateTimeEdit\<close>: \<open>bound\<close> moves a value into the range, \<open>setRange\<close> stores a
  new range whose maximum is at least its minimum, and \<open>setMinimumDateTime\<close> ignores a
  date before 0100-01-01 (ordinal 36160).
\<close>

definition QDATETIMEEDIT_DATE_MIN :: date where
  "QDATETIMEEDIT_DATE_MIN = 36160"

definition bound :: "QDateEdit \<Rightarrow> date \<Rightarrow> date" where
  "bound w val =
     (let v = (if val < de_minimum w then de_minimum w else val)
      in if de_maximum w < v then de_maximum w else v)"

definition setRange :: "date \<Rightarrow> date \<Rightarrow> QDateEdit \<Rightarrow> QDateEdit" where
  "setRange mn mx w = w\<lparr>de_minimum := mn, de_maximum := (if mn < mx then mx else mn)\<rparr>"

definition deEnd_date :: "HistWindowSelect \<Rightarrow> date" where
  "deEnd_date st = de_date (deEnd st)"

definition deEnd_store :: "date \<Rightarrow> HistWindowSelect \<Rightarrow> HistWindowSelect" where
  "deEnd_store v st = st\<lparr>deEnd := (deEnd st)\<lparr>de_date := v\<rparr>\<rparr>"

text \<open>
  The \<open>if\<close>/\<open>elif\<close> of \<open>onEndDateChange\<close>: a Saturday moves two days on, a Sunday
  one day on.
\<close>

definition weekend_to_monday :: "date \<Rightarrow> error + date" where
  "weekend_to_monday d =
     (if weekday d = 5 then add_days d 2
      else if weekday d = 6 then add_days d 1
      else Inr d)"

text \<open>
  A bound on the depth of nested calls of the slot: a date outside the range is first
  moved into it, and from then on every nested call moves the date towards the maximum.
\<close>

definition slot_rank :: "HistWindowSelect \<Rightarrow> nat" where
  "slot_rank st =
     (let w = deEnd st
      in if bound w (de_date w) = de_date w then nat (de_maximum w - de_date w)
         else nat (de_maximum w - de_minimum w) + 1)"

text \<open>
  \<open>self.deEnd.setDate(d)\<close> and the slot \<open>HistWindowSelect.onEndDateChange\<close>. Qt
  stores the bounded date and, when this changes the date, emits \<open>dateChanged\<close>, which
  the constructor has connected to \<open>onEndDateChange\<close>; the slot runs before \<open>setDate\<close>
  returns. The slot itself calls \<open>setDate\<close> and then emits \<open>end_signal\<close> with the date
  that it has computed.
\<close>

function deEnd_setDate :: "date \<Rightarrow> HistWindowSelect \<Rightarrow> error + HistWindowSelect"
  and onEndDateChange :: "HistWindowSelect \<Rightarrow> error + HistWindowSelect" where
  "deEnd_setDate d st =
     (let v = bound (deEnd st) d
      in if v = deEnd_date st then Inr st else onEndDateChange (deEnd_store v st))"
| "onEndDateChange st =
     (case weekend_to_monday (deEnd_date st) of
        Inl e \<Rightarrow> Inl e
      | Inr deEnd' \<Rightarrow>
          (case deEnd_setDate deEnd' st of
             Inl e \<Rightarrow> Inl e
           | Inr st' \<Rightarrow> Inr (st'\<lparr>end_signal := end_signal st' @ [deEnd']\<rparr>)))"
  by pat_completeness auto
termination
proof (relation "measure (\<lambda>x. case x of
          Inl (d, st) \<Rightarrow> (if bound (deEnd st) d = deEnd_date st then 0
                           else 2 * slot_rank (deEnd_store (bound (deEnd st) d) st) + 2)
        | Inr st \<Rightarrow> 2 * slot_rank st + 1)", goal_cases)
  case 1
  show ?case by simp
next
  case (2 d st v)
  then show ?case by simp
next
  case (3 st d)
  let ?w = "deEnd st" and ?x = "de_date (deEnd st)" and ?v = "bound (deEnd st) d"
  have dec: "slot_rank (deEnd_store ?v st) < slot_rank st" if ne: "?v \<noteq> deEnd_date st"
  proof -
    have rk: "slot_rank (deEnd_store ?v st) = nat (de_maximum ?w - ?v)"
      by (simp add: slot_rank_def deEnd_store_def bound_def Let_def)
    have xd: "?x \<le> d"
      using 3 by (auto simp: deEnd_date_def weekend_to_monday_def add_days_def split: if_splits)
    show ?thesis
    proof (cases "bound ?w ?x = ?x")
      case True
      have "bound ?w ?x \<le> ?v" using xd by (auto simp: bound_def Let_def)
      with True ne have "?x < ?v" by (simp add: deEnd_date_def)
      moreover have "?v \<le> de_maximum ?w" by (auto simp: bound_def Let_def)
      ultimately show ?thesis using True unfolding rk by (simp add: slot_rank_def Let_def)
    next
      case False
      have "de_maximum ?w - ?v \<le> max 0 (de_maximum ?w - de_minimum ?w)"
        by (auto simp: bound_def Let_def)
      then show ?thesis using False unfolding rk by (simp add: slot_rank_def Let_def)
    qed
  qed
  then show ?case by auto
qed

text \<open>
  \<open>self.deEnd.setMinimumDateTime(dt)\<close>: Qt stores the new range, bounds the current
  date by it and, when this changes the date, emits \<open>dateChanged\<close>.
\<close>

definition deEnd_setMinimumDateTime :: "date \<Rightarrow> HistWindowSelect \<Rightarrow> error + HistWindowSelect" where
  "deEnd_setMinimumDateTime dt st =
     (if QDATETIMEEDIT_DATE_MIN \<le> dt then
        (let w = setRange dt (de_maximum (deEnd st)) (deEnd st);
             v = bound w (de_date w)
         in if v = de_date w then Inr (st\<lparr>deEnd := w\<rparr>)
            else onEndDateChange (st\<lparr>deEnd := w\<lparr>de_date := v\<rparr>\<rparr>))
      else Inr st)"

text \<open>
  \<open>HistWindowSelect.setEndDateMinimum\<close>. Its last statement emits
  \<open>self.test_signal\<close>, an attribute that neither the class nor \<open>QGroupBox\<close> has, so
  reaching that statement raises \<open>AttributeError\<close>.
\<close>

definition setEndDateMinimum :: "HistWindowSelect \<Rightarrow> error + HistWindowSelect" where
  "setEndDateMinimum st =
     (case getWeekdaysOut (de_date (deStart st)) 22 of
        Inl e \<Rightarrow> Inl e
      | Inr end_min \<Rightarrow>
          (case deEnd_setMinimumDateTime end_min st of
             Inl e \<Rightarrow> Inl e
           | Inr st1 \<Rightarrow>
               (if deEnd_date st1 < end_min then
                  (case deEnd_setDate end_min st1 of
                     Inl e \<Rightarrow> Inl e
                   | Inr st2 \<Rightarrow> Inl AttributeError)
                else Inr st1)))"

section \<open>Calibration (MCVaR\_gui.py, onClickRun)\<close>

text \<open>
  Floating-point numbers are modelled as real numbers, without rounding. A cell of a
  pandas column is \<open>Some x\<close> for a number and \<open>None\<close> for NaN, the missing value that
  \<open>mean\<close> and \<open>std\<close> skip. Infinities are not represented: a division by a price of
  zero and the logarithm of zero are given as \<open>None\<close> as well, and the theorems below
  speak of inputs on which neither occurs.

  \<open>pct_change\<close> divides every row by the row before it and subtracts one; the first
  row has no predecessor and is NaN.
\<close>

type_synonym npfloat = "real option"

definition pct_change :: "real list \<Rightarrow> npfloat list" where
  "pct_change data =
     (case data of
        [] \<Rightarrow> []
      | x # rest \<Rightarrow>
          None # map (\<lambda>(prev, cur). if prev = 0 then None else Some (cur / prev - 1))
                     (zip data rest))"

definition one_minus :: "npfloat \<Rightarrow> npfloat" where
  "one_minus x = (case x of None \<Rightarrow> None | Some v \<Rightarrow> Some (1 - v))"

text \<open>\<open>np.log\<close> of a negative number is NaN.\<close>

definition np_log :: "npfloat \<Rightarrow> npfloat" where
  "np_log x = (case x of None \<Rightarrow> None | Some v \<Rightarrow> if 0 < v then Some (ln v) else None)"

definition dropna :: "npfloat list \<Rightarrow> real list" where
  "dropna col = List.map_filter (\<lambda>x. x) col"

text \<open>
  \<open>DataFrame.mean\<close> and \<open>DataFrame.std\<close> with their default arguments: NaN cells are
  skipped, the mean of no value is NaN, and the standard deviation divides by the number
  of values less one (\<open>ddof = 1\<close>) and is NaN for fewer than two values.
\<close>

definition pd_mean :: "npfloat list \<Rightarrow> npfloat" where
  "pd_mean col =
     (let values = dropna col; count = length values
      in if count = 0 then None else Some (sum_list values / real count))"

definition pd_std :: "npfloat list \<Rightarrow> npfloat" where
  "pd_std col =
     (let values = dropna col; count = length values
      in if count \<le> 1 then None
         else
           (let avg = sum_list values / real count;
                sqr = sum_list (map (\<lambda>v. (avg - v)\<^sup>2) values)
            in Some (sqrt (sqr / real (count - 1)))))"

text \<open>\<open>data.iloc[-1]\<close> raises \<open>IndexError\<close> on a frame without rows.\<close>

definition iloc_last :: "real list \<Rightarrow> error + real" where
  "iloc_last data = (if data = [] then Inl IndexError else Inr (last data))"

text \<open>
  Lines 98 to 102 of \<open>onClickRun\<close>, as a function of the column of adjusted closing
  prices: the result is \<open>(p0, mu, sig)\<close>. Each of the three is an array of one
  element in the program, the frame having one column; the model takes the element.
\<close>

definition calibrate :: "real list \<Rightarrow> error + (real \<times> npfloat \<times> npfloat)" where
  "calibrate data =
     (let returns = map (\<lambda>x. np_log (one_minus x)) (pct_change data)
      in case iloc_last data of
           Inl e \<Rightarrow> Inl e
         | Inr p0 \<Rightarrow> Inr (p0, pd_mean returns, pd_std returns))"

text \<open>
  The calibration as the specification words it: the return of a consecutive pair, the
  sequence of returns of a series, its mean and its sample standard deviation. A series
  has defined returns when no price that has a successor is zero and every price divided
  by its predecessor is less than 2, so that every logarithm has a positive argument;
  among positive prices this says that every price is less than twice its predecessor.
\<close>

definition log_return :: "real \<Rightarrow> real \<Rightarrow> real" where
  "log_return prev cur = ln (1 - (cur - prev) / prev)"

definition log_returns :: "real list \<Rightarrow> real list" where
  "log_returns ps = map (\<lambda>i. log_return (ps ! (i - 1)) (ps ! i)) [1..<length ps]"

definition sample_mean :: "real list \<Rightarrow> real" where
  "sample_mean xs = sum_list xs / real (length xs)"

definition sample_sd :: "real list \<Rightarrow> real" where
  "sample_sd xs =
     sqrt (sum_list (map (\<lambda>x. (x - sample_mean xs)\<^sup>2) xs) / real (length xs - 1))"

definition defined_returns :: "real list \<Rightarrow> bool" where
  "defined_returns ps \<longleftrightarrow>
     list_all (\<lambda>(prev, cur). prev \<noteq> 0 \<and> cur / prev < 2) (zip ps (tl ps))"

section \<open>Path simulation (MCVaR\_gui.py, onClickRun)\<close>

text \<open>
  The global random generator of numpy is a state: the sequence of numbers that
  \<open>np.random.rand()\<close> will return, and how many of them have been consumed.
  \<open>norm.ppf\<close>, the inverse of the standard normal distribution function, is a parameter
  \<open>ppf\<close> of the model.
\<close>

record rng =
  draws :: "nat \<Rightarrow> real"
  consumed :: nat

definition rand :: "rng \<Rightarrow> real \<times> rng" where
  "rand g = (draws g (consumed g), g\<lparr>consumed := Suc (consumed g)\<rparr>)"

text \<open>
  The body of the inner loop (lines 108 to 113). Its state is the generator, the local
  variable \<open>curr_price\<close>, unbound before the first assignment, and the list \<open>path\<close>.
  The shock \<open>e\<close> is drawn in every round, also in the round \<open>j = 1\<close> that does not use
  it.
\<close>

type_synonym path_state = "rng \<times> real option \<times> real list"

definition path_body ::
  "(real \<Rightarrow> real) \<Rightarrow> real \<Rightarrow> real \<Rightarrow> real \<Rightarrow> nat \<Rightarrow> path_state \<Rightarrow> error + path_state" where
  "path_body ppf p0 mu sig j s =
     (case s of (g, curr_price, path) \<Rightarrow>
        (case rand g of (u, g') \<Rightarrow>
           (let e = ppf u
            in case (if j = 1 then Inr p0
                     else (case curr_price of
                             None \<Rightarrow> Inl UnboundLocalError
                           | Some c \<Rightarrow> Inr (c + (mu * c + sig * c * e)))) of
                 Inl err \<Rightarrow> Inl err
               | Inr c' \<Rightarrow> Inr (g', Some c', path @ [c']))))"

text \<open>
  The body of the outer loop (lines 106 to 115): one path of \<open>range(1, days + 2)\<close>
  rounds, appended to \<open>paths\<close>. \<open>curr_price\<close> is a variable of the method and keeps its
  value from one trial to the next.
\<close>

type_synonym trial_state = "rng \<times> real option \<times> real list list"

definition trial_body ::
  "(real \<Rightarrow> real) \<Rightarrow> real \<Rightarrow> real \<Rightarrow> real \<Rightarrow> nat \<Rightarrow> nat \<Rightarrow> trial_state \<Rightarrow> error + trial_state" where
  "trial_body ppf p0 mu sig days i s =
     (case s of (g, curr_price, paths) \<Rightarrow>
        (case for_each (path_body ppf p0 mu sig) [1..<days + 2] (g, curr_price, []) of
           Inl err \<Rightarrow> Inl err
         | Inr (g', curr_price', path) \<Rightarrow> Inr (g', curr_price', paths @ [path])))"

definition simulate_paths ::
  "(real \<Rightarrow> real) \<Rightarrow> real \<Rightarrow> real \<Rightarrow> real \<Rightarrow> nat \<Rightarrow> int \<Rightarrow> rng \<Rightarrow> error + trial_state" where
  "simulate_paths ppf p0 mu sig days trials g =
     for_each (trial_body ppf p0 mu sig days) (py_range trials) (g, None, [])"

text \<open>
  \<open>np.hstack\<close> of arrays with one column each, a path being such an array: the result
  has one row per step and one column per path. It raises \<open>ValueError\<close> for an empty
  list and for columns of different lengths.
\<close>

definition np_hstack :: "real list list \<Rightarrow> error + real list list" where
  "np_hstack cols =
     (case cols of
        [] \<Rightarrow> Inl ValueError
      | c # rest \<Rightarrow>
          (if list_all (\<lambda>c'. length c' = length c) rest
           then Inr (map (\<lambda>r. map (\<lambda>col. col ! r) cols) [0..<length c])
           else Inl ValueError))"

text \<open>Lines 104 to 116: the result is \<open>self.path_array\<close> and the generator.\<close>

definition simulate ::
  "(real \<Rightarrow> real) \<Rightarrow> real \<Rightarrow> real \<Rightarrow> real \<Rightarrow> nat \<Rightarrow> int \<Rightarrow> rng
     \<Rightarrow> error + (real list list \<times> rng)" where
  "simulate ppf p0 mu sig days trials g =
     (case simulate_paths ppf p0 mu sig days trials g of
        Inl err \<Rightarrow> Inl err
      | Inr (g', curr_price, paths) \<Rightarrow>
          (case np_hstack paths of
             Inl err \<Rightarrow> Inl err
           | Inr path_array \<Rightarrow> Inr (path_array, g')))"

section \<open>Value-at-Risk (MCVaR\_gui.py, onClickRun)\<close>






section \<open>Auxiliary notions for the proofs\<close>

text \<open>
  The price at step \<open>t\<close> of the path whose first draw has the index \<open>n\<close>, and the path
  as a column of \<open>days + 1\<close> prices.
\<close>

fun gbm :: "(real \<Rightarrow> real) \<Rightarrow> real \<Rightarrow> real \<Rightarrow> real \<Rightarrow> (nat \<Rightarrow> real) \<Rightarrow> nat \<Rightarrow> nat \<Rightarrow> real" where
  "gbm ppf p0 mu sig u n 0 = p0"
| "gbm ppf p0 mu sig u n (Suc t) =
     (let c = gbm ppf p0 mu sig u n t in c + (mu * c + sig * c * ppf (u (n + Suc t))))"

definition column ::
  "(real \<Rightarrow> real) \<Rightarrow> real \<Rightarrow> real \<Rightarrow> real \<Rightarrow> (nat \<Rightarrow> real) \<Rightarrow> nat \<Rightarrow> nat \<Rightarrow> real list" where
  "column ppf p0 mu sig u days n = map (gbm ppf p0 mu sig u n) [0..<Suc days]"

text \<open>The index of the draw that trial \<open>i\<close> makes in the round of step \<open>t\<close>.\<close>

definition draw_index :: "nat \<Rightarrow> nat \<Rightarrow> nat \<Rightarrow> nat \<Rightarrow> nat" where
  "draw_index n days i t = n + i * (days + 1) + t"

text \<open>
  Auxiliary notions for the proofs: one round of the loop of \<open>getWeekdaysOut\<close> and of
  \<open>getWeekdaysBack\<close> without the range check, the dates from Monday to Friday, and the
  date that \<open>snap_forward\<close> returns.
\<close>

definition step_fwd :: "date \<Rightarrow> date" where
  "step_fwd c = (if weekday (c + 1) = 5 then c + 3 else c + 1)"

definition step_back :: "date \<Rightarrow> date" where
  "step_back c = (if weekday (c - 1) = 6 then c - 3 else c - 1)"

definition business_day :: "date \<Rightarrow> bool" where
  "business_day d \<longleftrightarrow> weekday d < 5"

definition snapped :: "date \<Rightarrow> date" where
  "snapped d = (if weekday d = 5 then d + 2 else if weekday d = 6 then d + 1 else d)"

section \<open>Properties of the business-day arithmetic\<close>

lemma weekday_MAXORD: "weekday MAXORD = 4"
  by (simp add: weekday_def MAXORD_def)

lemma snapped_le_bound:
  "d \<le> M \<Longrightarrow> (M + 6) mod 7 = (4::int) \<Longrightarrow>
   (if (d + 6) mod 7 = 5 then d + 2 else if (d + 6) mod 7 = 6 then d + 1 else d) \<le> M"
  by presburger

lemma snapped_le_MAXORD: "d \<le> MAXORD \<Longrightarrow> snapped d \<le> MAXORD"
  using snapped_le_bound [of d MAXORD] weekday_MAXORD unfolding snapped_def weekday_def by simp

lemma snapped_props: "business_day (snapped d)" "d \<le> snapped d" "snapped d \<le> d + 2"
  unfolding snapped_def business_day_def weekday_def by (simp; presburger)+

lemma snapped_valid: "valid_date d \<Longrightarrow> valid_date (snapped d)"
  using snapped_props(2) [of d] snapped_le_MAXORD [of d] unfolding valid_date_def by linarith

lemma snap_forward_eq: "valid_date d \<Longrightarrow> snap_forward d = Inr (snapped d)"
proof -
  assume v: "valid_date d"
  have r: "MINORD \<le> snapped d" "snapped d \<le> MAXORD"
    using snapped_valid [OF v] by (simp_all add: valid_date_def)
  consider (sat) "weekday d = 5" | (sun) "weekday d = 6" | (wd) "weekday d \<noteq> 5" "weekday d \<noteq> 6"
    by blast
  then show ?thesis
  proof cases
    case sat
    then have "weekday (d + 2) \<noteq> 6" unfolding weekday_def by presburger
    with sat r show ?thesis by (simp add: snap_forward_def snapped_def add_days_def)
  next
    case sun
    with r show ?thesis by (simp add: snap_forward_def snapped_def add_days_def)
  next
    case wd
    then show ?thesis by (simp add: snap_forward_def snapped_def)
  qed
qed

lemma step_fwd_gt: "c < step_fwd c"
  unfolding step_fwd_def by simp

lemma step_fwd_business: "business_day c \<Longrightarrow> business_day (step_fwd c)"
  unfolding step_fwd_def business_day_def weekday_def by (simp; presburger)

lemma step_back_fwd: "business_day c \<Longrightarrow> step_back (step_fwd c) = c"
  unfolding step_fwd_def step_back_def business_day_def weekday_def by (simp; presburger)

lemma out_body_step:
  "0 \<le> c \<Longrightarrow> (if i = 0 then Some s else cur) = Some c \<Longrightarrow>
   out_body s i cur = (if step_fwd c \<le> MAXORD then Inr (Some (step_fwd c)) else Inl OverflowError)"
  unfolding out_body_def step_fwd_def add_days_def MINORD_def
  by (simp; presburger)

lemma back_body_step:
  "c \<le> MAXORD + 1 \<Longrightarrow> (if i = 0 then Some s else cur) = Some c \<Longrightarrow>
   back_body s i cur = (if MINORD \<le> step_back c then Inr (Some (step_back c)) else Inl OverflowError)"
  unfolding back_body_def step_back_def add_days_def MINORD_def
  by (simp; presburger)

lemma funpow_step_fwd_ge: "c \<le> (step_fwd ^^ k) c"
proof (induction k)
  case 0 show ?case by simp
next
  case (Suc k)
  have "(step_fwd ^^ k) c < step_fwd ((step_fwd ^^ k) c)" by (rule step_fwd_gt)
  with Suc show ?case by simp
qed

lemma funpow_step_fwd_business: "business_day c \<Longrightarrow> business_day ((step_fwd ^^ k) c)"
  by (induction k) (simp_all add: step_fwd_business)

lemma funpow_back_fwd: "business_day c \<Longrightarrow> (step_back ^^ k) ((step_fwd ^^ k) c) = c"
proof (induction k arbitrary: c)
  case 0 show ?case by simp
next
  case (Suc k)
  have "(step_back ^^ Suc k) ((step_fwd ^^ Suc k) c)
        = (step_back ^^ k) (step_back (step_fwd ((step_fwd ^^ k) c)))"
    by (simp add: funpow_swap1)
  also have "\<dots> = (step_back ^^ k) ((step_fwd ^^ k) c)"
    using Suc.prems by (simp add: step_back_fwd funpow_step_fwd_business)
  also have "\<dots> = c" using Suc by simp
  finally show ?case .
qed

lemma upt_Suc_shift: "[Suc a..<Suc a + Suc k] = Suc a # [Suc (Suc a)..<Suc (Suc a) + k]"
  by (simp add: upt_conv_Cons)

lemma for_each_out_tail:
  "0 \<le> c \<Longrightarrow> c \<le> MAXORD \<Longrightarrow>
   for_each (out_body s) [Suc a..<Suc a + k] (Some c)
     = (if (step_fwd ^^ k) c \<le> MAXORD then Inr (Some ((step_fwd ^^ k) c)) else Inl OverflowError)"
proof (induction k arbitrary: a c)
  case 0 
  then show ?case by simp
next
  case (Suc k)
  have body: "out_body s (Suc a) (Some c)
      = (if step_fwd c \<le> MAXORD then Inr (Some (step_fwd c)) else Inl OverflowError)"
    using Suc.prems by (intro out_body_step) simp_all
  have pow: "(step_fwd ^^ Suc k) c = (step_fwd ^^ k) (step_fwd c)"
    by (simp add: funpow_swap1)
  show ?case
  proof (cases "step_fwd c \<le> MAXORD")
    case True
    have "0 \<le> step_fwd c" using step_fwd_gt [of c] Suc.prems by linarith
    from Suc.IH [OF this True, of "Suc a"] True body show ?thesis
      unfolding upt_Suc_shift pow by simp
  next
    case False
    have "step_fwd c \<le> (step_fwd ^^ k) (step_fwd c)" by (rule funpow_step_fwd_ge)
    with False have "\<not> (step_fwd ^^ Suc k) c \<le> MAXORD" unfolding pow by linarith
    with False body show ?thesis unfolding upt_Suc_shift by simp
  qed
qed

lemma step_back_lt: "step_back c < c"
  unfolding step_back_def by simp

lemma funpow_step_back_le: "(step_back ^^ k) c \<le> c"
proof (induction k)
  case 0 show ?case by simp
next
  case (Suc k)
  have "step_back ((step_back ^^ k) c) < (step_back ^^ k) c" by (rule step_back_lt)
  with Suc show ?case by simp
qed

lemma for_each_back_tail:
  "MINORD \<le> c \<Longrightarrow> c \<le> MAXORD \<Longrightarrow>
   for_each (back_body s) [Suc a..<Suc a + k] (Some c)
     = (if MINORD \<le> (step_back ^^ k) c then Inr (Some ((step_back ^^ k) c)) else Inl OverflowError)"
proof (induction k arbitrary: a c)
  case 0 
  then show ?case by simp
next
  case (Suc k)
  have body: "back_body s (Suc a) (Some c)
      = (if MINORD \<le> step_back c then Inr (Some (step_back c)) else Inl OverflowError)"
    using Suc.prems by (intro back_body_step) simp_all
  have pow: "(step_back ^^ Suc k) c = (step_back ^^ k) (step_back c)"
    by (simp add: funpow_swap1)
  show ?case
  proof (cases "MINORD \<le> step_back c")
    case True
    have "step_back c \<le> MAXORD" using step_back_lt [of c] Suc.prems by linarith
    from Suc.IH [OF True this, of "Suc a"] True body show ?thesis
      unfolding upt_Suc_shift pow by simp
  next
    case False
    have "(step_back ^^ k) (step_back c) \<le> step_back c" by (rule funpow_step_back_le)
    with False have "\<not> MINORD \<le> (step_back ^^ Suc k) c" unfolding pow by linarith
    with False body show ?thesis unfolding upt_Suc_shift by simp
  qed
qed

lemma py_range_pos: "1 \<le> n \<Longrightarrow> py_range n = 0 # [Suc 0..<Suc 0 + (nat n - 1)]"
  unfolding py_range_def by (simp add: upt_conv_Cons)

lemma getWeekdaysOut_eq:
  assumes "valid_date d" "1 \<le> n"
  shows "getWeekdaysOut d n
         = (if (step_fwd ^^ nat n) (snapped d) \<le> MAXORD
            then Inr ((step_fwd ^^ nat n) (snapped d)) else Inl OverflowError)"
proof -
  let ?s = "snapped d"
  have s: "0 \<le> ?s" "?s \<le> MAXORD"
    using snapped_valid [OF assms(1)] by (simp_all add: valid_date_def MINORD_def)
  obtain k where k: "nat n = Suc k" using assms(2) by (cases "nat n") simp_all
  have pow: "(step_fwd ^^ nat n) ?s = (step_fwd ^^ k) (step_fwd ?s)"
    unfolding k by (simp add: funpow_swap1)
  have rng: "py_range n = 0 # [Suc 0..<Suc 0 + k]"
    using py_range_pos [OF assms(2)] k by simp
  have body: "out_body ?s 0 None
      = (if step_fwd ?s \<le> MAXORD then Inr (Some (step_fwd ?s)) else Inl OverflowError)"
    using s by (intro out_body_step) simp_all
  show ?thesis
  proof (cases "step_fwd ?s \<le> MAXORD")
    case True
    have "0 \<le> step_fwd ?s" using step_fwd_gt [of ?s] s by linarith
    from for_each_out_tail [OF this True, of ?s 0 k] body True show ?thesis
      unfolding getWeekdaysOut_def snap_forward_eq [OF assms(1)] rng pow by simp
  next
    case False
    have "step_fwd ?s \<le> (step_fwd ^^ k) (step_fwd ?s)" by (rule funpow_step_fwd_ge)
    with False have "\<not> (step_fwd ^^ k) (step_fwd ?s) \<le> MAXORD" by linarith
    with False body show ?thesis
      unfolding getWeekdaysOut_def snap_forward_eq [OF assms(1)] rng pow by simp
  qed
qed

lemma snap_backward_business: "business_day e \<Longrightarrow> snap_backward e = Inr e"
  unfolding snap_backward_def business_day_def by simp

lemma getWeekdaysBack_eq:
  assumes "valid_date e" "business_day e" "1 \<le> n"
  shows "getWeekdaysBack e n
         = (if MINORD \<le> (step_back ^^ nat n) e
            then Inr ((step_back ^^ nat n) e) else Inl OverflowError)"
proof -
  have s: "MINORD \<le> e" "e \<le> MAXORD" "e \<le> MAXORD + 1"
    using assms(1) by (simp_all add: valid_date_def)
  obtain k where k: "nat n = Suc k" using assms(3) by (cases "nat n") simp_all
  have pow: "(step_back ^^ nat n) e = (step_back ^^ k) (step_back e)"
    unfolding k by (simp add: funpow_swap1)
  have rng: "py_range n = 0 # [Suc 0..<Suc 0 + k]"
    using py_range_pos [OF assms(3)] k by simp
  have body: "back_body e 0 None
      = (if MINORD \<le> step_back e then Inr (Some (step_back e)) else Inl OverflowError)"
    using s by (intro back_body_step) simp_all
  show ?thesis
  proof (cases "MINORD \<le> step_back e")
    case True
    have "step_back e \<le> MAXORD" using step_back_lt [of e] s by linarith
    from for_each_back_tail [OF True this, of e 0 k] body True show ?thesis
      unfolding getWeekdaysBack_def snap_backward_business [OF assms(2)] rng pow by simp
  next
    case False
    have "(step_back ^^ k) (step_back e) \<le> step_back e" by (rule funpow_step_back_le)
    with False have "\<not> MINORD \<le> (step_back ^^ k) (step_back e)" by linarith
    with False body show ?thesis
      unfolding getWeekdaysBack_def snap_backward_business [OF assms(2)] rng pow by simp
  qed
qed

lemma count_loop_overflow: "e < c \<Longrightarrow> count_loop c e d = Inl OverflowError"
proof (induction c e d rule: count_loop.induct)
  case (1 c e d)
  show ?case
  proof (cases "add_days c 1")
    case (Inl x)
    then have "x = OverflowError" by (auto simp: add_days_def split: if_splits)
    with Inl 1(4) show ?thesis by (subst count_loop.simps) simp
  next
    case (Inr c')
    then have "e < c'" using 1(4) by (auto simp: add_days_def split: if_splits)
    with 1(1,2,3) [OF _ Inr] 1(4) Inr show ?thesis
      by (subst count_loop.simps) auto
  qed
qed

lemma count_loop_returns:
  "0 \<le> c \<Longrightarrow> c \<le> e \<Longrightarrow> e \<le> MAXORD \<Longrightarrow> \<exists>n. count_loop c e d = Inr n \<and> d \<le> n"
proof (induction c e d rule: count_loop.induct)
  case (1 c e d)
  show ?case
  proof (cases "c = e")
    case True
    then show ?thesis by (subst count_loop.simps) simp
  next
    case False
    with "1.prems" have a: "add_days c 1 = Inr (c + 1)" and le: "0 \<le> c + 1" "c + 1 \<le> e"
      by (simp_all add: add_days_def MINORD_def)
    note ih = "1.IH" [OF False a]
    consider (sat) "weekday (c + 1) = 5" | (sun) "weekday (c + 1) \<noteq> 5" "weekday (c + 1) = 6"
      | (wd) "weekday (c + 1) \<noteq> 5" "weekday (c + 1) \<noteq> 6" by blast
    then show ?thesis
    proof cases
      case sat
      from ih(1) [OF sat le "1.prems"(3)] False a sat show ?thesis
        by (subst count_loop.simps) simp
    next
      case sun
      from ih(2) [OF sun le "1.prems"(3)] False a sun show ?thesis
        by (subst count_loop.simps) simp
    next
      case wd
      from ih(3) [OF wd le "1.prems"(3)] obtain n where "count_loop (c + 1) e (d + 1) = Inr n" "d + 1 \<le> n"
        by blast
      with False a wd show ?thesis
        by (subst count_loop.simps) simp
    qed
  qed
qed

lemma count_loop_step:
  assumes "business_day c" "0 \<le> c" "step_fwd c \<le> e" "e \<le> MAXORD"
  shows "count_loop c e d = count_loop (step_fwd c) e (d + 1)"
proof (cases "weekday (c + 1) = 5")
  case False
  then have s: "step_fwd c = c + 1" by (simp add: step_fwd_def)
  have a: "add_days c 1 = Inr (c + 1)" "c \<noteq> e"
    using assms s by (simp_all add: add_days_def MINORD_def)
  have "weekday (c + 1) \<noteq> 6" using assms(1) unfolding business_day_def weekday_def by presburger
  with a False show ?thesis
    unfolding s by (subst count_loop.simps) simp
next
  case True
  then have s: "step_fwd c = c + 3" by (simp add: step_fwd_def)
  have w: "weekday (c + 2) = 6" "weekday (c + 3) = 0"
    using True unfolding weekday_def by presburger+
  have a: "add_days c 1 = Inr (c + 1)" "c \<noteq> e"
          "add_days (c + 1) 1 = Inr (c + 2)" "c + 1 \<noteq> e"
          "add_days (c + 2) 1 = Inr (c + 3)" "c + 2 \<noteq> e"
    using assms s by (simp_all add: add_days_def MINORD_def)
  have "count_loop c e d = count_loop (c + 1) e d"
    using a True by (subst count_loop.simps) simp
  also have "\<dots> = count_loop (c + 2) e d"
    using a w by (subst count_loop.simps) simp
  also have "\<dots> = count_loop (c + 3) e (d + 1)"
    using a w by (subst count_loop.simps) simp
  finally show ?thesis unfolding s .
qed

lemma count_loop_funpow:
  "business_day c \<Longrightarrow> 0 \<le> c \<Longrightarrow> (step_fwd ^^ k) c \<le> MAXORD \<Longrightarrow>
   count_loop c ((step_fwd ^^ k) c) d = Inr (d + int k)"
proof (induction k arbitrary: c d)
  case 0
  show ?case by (subst count_loop.simps) simp
next
  case (Suc k)
  have pow: "(step_fwd ^^ Suc k) c = (step_fwd ^^ k) (step_fwd c)"
    by (simp add: funpow_swap1)
  have le: "step_fwd c \<le> (step_fwd ^^ k) (step_fwd c)" by (rule funpow_step_fwd_ge)
  have b: "business_day (step_fwd c)" using Suc.prems(1) by (rule step_fwd_business)
  have nn: "0 \<le> step_fwd c" using step_fwd_gt [of c] Suc.prems(2) by linarith
  have "count_loop c ((step_fwd ^^ k) (step_fwd c)) d
        = count_loop (step_fwd c) ((step_fwd ^^ k) (step_fwd c)) (d + 1)"
    using Suc.prems le unfolding pow by (intro count_loop_step) simp_all
  also have "\<dots> = Inr (d + 1 + int k)"
    using Suc.prems(3) unfolding pow by (intro Suc.IH b nn)
  finally show ?case unfolding pow by simp
qed


lemma snap_backward_valid: "valid_date d \<Longrightarrow> \<exists>s. snap_backward d = Inr s"
proof -
  assume "valid_date d"
  then have d: "1 \<le> d" "d \<le> MAXORD" by (simp_all add: valid_date_def MINORD_def)
  consider (sat) "weekday d = 5" | (sun) "weekday d = 6" | (wd) "weekday d \<noteq> 5" "weekday d \<noteq> 6"
    by blast
  then show ?thesis
  proof cases
    case sat
    then have "weekday (d - 1) \<noteq> 6" "1 \<le> d - 1"
      using d(1) unfolding weekday_def by presburger+
    with sat d show ?thesis by (simp add: snap_backward_def add_days_def MINORD_def)
  next
    case sun
    then have "1 \<le> d - 2" using d(1) unfolding weekday_def by presburger
    with sun d show ?thesis by (simp add: snap_backward_def add_days_def MINORD_def)
  next
    case wd
    then show ?thesis by (simp add: snap_backward_def)
  qed
qed

lemmas calendar_eval =
  getWeekdaysOut_def getWeekdaysBack_def getNumDays_def snap_forward_def snap_backward_def
  out_body_def back_body_def py_range_def add_days_def weekday_def valid_date_def
  MINORD_def MAXORD_def upt_conv_Cons

section \<open>Claims about the business-day arithmetic\<close>

text \<open>
  Claim C5 (round-trip law). Stated for every \<open>n \<ge> 0\<close> and every date, the law fails
  twice: with \<open>n = 0\<close> the advance raises \<open>UnboundLocalError\<close>, and from 9999-12-31
  the advance by one business day leaves the range of \<open>datetime\<close> and raises
  \<open>OverflowError\<close>.
\<close>

theorem round_trip_counterexample:
  "getWeekdaysOut 737620 0 = Inl UnboundLocalError \<and> getWeekdaysOut 3652059 1 = Inl OverflowError"
  by (simp add: calendar_eval)

text \<open>
  Claim C5, amended. For every date \<open>d\<close> and every \<open>n \<ge> 1\<close> for which
  \<open>getWeekdaysOut d n\<close> returns a date \<open>e\<close>, \<open>getWeekdaysBack e n\<close> returns the date
  to which the leading statements of \<open>getWeekdaysOut\<close> move \<open>d\<close>: the following Monday
  for a Saturday or Sunday, \<open>d\<close> itself otherwise.
\<close>

theorem round_trip:
  assumes "valid_date d" "1 \<le> n" "getWeekdaysOut d n = Inr e"
  shows "snap_forward d = Inr (snapped d) \<and> getWeekdaysBack e n = Inr (snapped d)"
proof -
  let ?s = "snapped d"
  from assms have e: "e = (step_fwd ^^ nat n) ?s" "e \<le> MAXORD"
    by (auto simp: getWeekdaysOut_eq split: if_splits)
  have bs: "business_day ?s" by (rule snapped_props)
  have be: "business_day e" unfolding e(1) using bs by (rule funpow_step_fwd_business)
  have "?s \<le> e" unfolding e(1) by (rule funpow_step_fwd_ge)
  with snapped_valid [OF assms(1)] e(2) have ve: "valid_date e"
    by (simp add: valid_date_def)
  have bk: "(step_back ^^ nat n) e = ?s" unfolding e(1) using bs by (rule funpow_back_fwd)
  have "MINORD \<le> ?s" using snapped_valid [OF assms(1)] by (simp add: valid_date_def)
  then have "getWeekdaysBack e n = Inr ?s"
    unfolding getWeekdaysBack_eq [OF ve be assms(2)] bk by simp
  with snap_forward_eq [OF assms(1)] show ?thesis by simp
qed

text \<open>
  The law at Saturday 2024-01-06 (ordinal 738891) and \<open>n = 3\<close>: the advance returns
  Thursday 2024-01-11 and the retreat returns Monday 2024-01-08.
\<close>

theorem round_trip_witness:
  "valid_date 738891 \<and> (1::int) \<le> 3 \<and> getWeekdaysOut 738891 3 = Inr 738896
   \<and> snap_forward 738891 = Inr 738893 \<and> getWeekdaysBack 738896 3 = Inr 738893"
proof -
  have v: "valid_date 738891" by (simp add: valid_date_def MINORD_def MAXORD_def)
  have a: "getWeekdaysOut 738891 3 = Inr 738896" by (simp add: calendar_eval)
  have s: "snapped 738891 = 738893" by (simp add: snapped_def weekday_def)
  from round_trip [OF v _ a] v a s show ?thesis by simp
qed

text \<open>
  Claim C6 (count after advance). Stated for every \<open>n \<ge> 0\<close> and every start date, the
  equation fails where the advance raises: with \<open>n = 0\<close> (\<open>UnboundLocalError\<close>) and
  where the advance leaves the range of \<open>datetime\<close>, as two business days after
  9999-12-30 (\<open>OverflowError\<close>).
\<close>

theorem count_after_advance_counterexample:
  "getWeekdaysOut 738886 0 = Inl UnboundLocalError \<and> getWeekdaysOut 3652058 2 = Inl OverflowError"
  by (simp add: calendar_eval)

text \<open>
  Claim C6, amended. For every start date and every \<open>n \<ge> 1\<close> for which
  \<open>getWeekdaysOut start n\<close> returns a date \<open>e\<close>, \<open>getNumDays start e\<close> returns \<open>n\<close>.
\<close>

theorem count_after_advance:
  assumes "valid_date start_date" "1 \<le> n" "getWeekdaysOut start_date n = Inr e"
  shows "getNumDays start_date e = Inr n"
proof -
  let ?s = "snapped start_date"
  from assms have e: "e = (step_fwd ^^ nat n) ?s" "(step_fwd ^^ nat n) ?s \<le> MAXORD"
    by (auto simp: getWeekdaysOut_eq split: if_splits)
  have "0 \<le> ?s" using snapped_valid [OF assms(1)] by (simp add: valid_date_def MINORD_def)
  from count_loop_funpow [OF snapped_props(1) this e(2), of 0] assms(2) show ?thesis
    unfolding getNumDays_def snap_forward_eq [OF assms(1)] e(1) by simp
qed

text \<open>
  The equation at Saturday 2024-01-06 and \<open>n = 5\<close>: the advance returns Monday
  2024-01-15 (ordinal 738900).
\<close>

theorem count_after_advance_witness:
  "valid_date 738891 \<and> (1::int) \<le> 5 \<and> getWeekdaysOut 738891 5 = Inr 738900
   \<and> getNumDays 738891 738900 = Inr 5"
proof -
  have v: "valid_date 738891" by (simp add: valid_date_def MINORD_def MAXORD_def)
  have a: "getWeekdaysOut 738891 5 = Inr 738900" by (simp add: calendar_eval)
  from count_after_advance [OF v _ a] v a show ?thesis by simp
qed

text \<open>
  Claim C7 (zero business days). The claim asks \<open>getWeekdaysOut d 0\<close> and
  \<open>getWeekdaysBack d 0\<close> to return the snapped date. Both loops assign \<open>curr_date\<close> only
  in their first round, so with a count of zero the final \<open>return(curr_date)\<close> reads an
  unbound local variable: for every date both calls raise \<open>UnboundLocalError\<close>, although
  the docstrings promise the date that is so many weekdays away and list no error.
\<close>

theorem zero_days_unbound:
  assumes "valid_date d"
  shows "getWeekdaysOut d 0 = Inl UnboundLocalError \<and> getWeekdaysBack d 0 = Inl UnboundLocalError"
proof -
  from snap_backward_valid [OF assms] obtain s where "snap_backward d = Inr s" ..
  then show ?thesis
    by (simp add: getWeekdaysOut_def getWeekdaysBack_def snap_forward_eq [OF assms] py_range_def)
qed

theorem zero_days_unbound_witness:
  "valid_date 738891 \<and> getWeekdaysOut 738891 0 = Inl UnboundLocalError
   \<and> getWeekdaysBack 738891 0 = Inl UnboundLocalError"
proof -
  have v: "valid_date 738891" by (simp add: valid_date_def MINORD_def MAXORD_def)
  from zero_days_unbound [OF v] v show ?thesis by simp
qed

text \<open>
  Claim C10 (termination of \<open>getNumDays\<close>). The claim says that the loop ends only when
  the end date is on or after the snapped start date. The loop never reaches an
  earlier end date, but it ends all the same: adding a day to 9999-12-31 raises
  \<open>OverflowError\<close>. From Thursday 9999-12-30 with the end date 9999-12-29 this happens
  in the second round.
\<close>

theorem getNumDays_counterexample:
  "getNumDays 3652058 3652057 = Inl OverflowError"
  by (simp add: calendar_eval)

text \<open>
  Claim C10, amended. \<open>getNumDays\<close> ends for every pair of dates. It returns a count
  when the end date is on or after the snapped start date, and it raises
  \<open>OverflowError\<close>, without ever reaching the end date, when the end date precedes the
  snapped start date; so a returned count is guaranteed exactly under that precondition.
\<close>

theorem getNumDays_outcome:
  assumes "valid_date start_date" "valid_date end_date"
  shows "snap_forward start_date = Inr (snapped start_date) \<and>
         (if snapped start_date \<le> end_date
          then \<exists>n. getNumDays start_date end_date = Inr n \<and> 0 \<le> n
          else getNumDays start_date end_date = Inl OverflowError)"
proof -
  let ?s = "snapped start_date"
  have s: "snap_forward start_date = Inr ?s" using assms(1) by (rule snap_forward_eq)
  have nn: "0 \<le> ?s" using snapped_valid [OF assms(1)] by (simp add: valid_date_def MINORD_def)
  have e: "end_date \<le> MAXORD" using assms(2) by (simp add: valid_date_def)
  show ?thesis
  proof (cases "?s \<le> end_date")
    case True
    from count_loop_returns [OF nn True e, of 0] True s show ?thesis
      by (simp add: getNumDays_def)
  next
    case False
    then have "end_date < ?s" by simp
    from count_loop_overflow [OF this, of 0] False s show ?thesis
      by (simp add: getNumDays_def)
  qed
qed

text \<open>
  Both outcomes: from Saturday 2024-01-06 to Wednesday 2024-01-10 the count is 2; from
  9999-12-31 to the day before it the call raises.
\<close>

theorem getNumDays_outcome_witness:
  "valid_date 738891 \<and> valid_date 738895 \<and> getNumDays 738891 738895 = Inr 2
   \<and> valid_date 3652059 \<and> valid_date 3652058 \<and> getNumDays 3652059 3652058 = Inl OverflowError"
proof -
  have v: "valid_date 738891" "valid_date 738895" "valid_date 3652059" "valid_date 3652058"
    by (simp_all add: valid_date_def MINORD_def MAXORD_def)
  have s: "snapped 738891 = 738893" "snapped 3652059 = 3652059"
    by (simp_all add: snapped_def weekday_def)
  have a: "getNumDays 738891 738895 = Inr 2" by (simp add: calendar_eval)
  from getNumDays_outcome [OF v(1,2)] getNumDays_outcome [OF v(3,4)] v s a show ?thesis
    by simp
qed

section \<open>The minimum of the historical end date\<close>

lemma weekend_to_monday_business: "business_day d \<Longrightarrow> weekend_to_monday d = Inr d"
  by (simp add: weekend_to_monday_def business_day_def)

lemma onEndDateChange_settled:
  assumes "business_day (deEnd_date st)" "bound (deEnd st) (deEnd_date st) = deEnd_date st"
  shows "onEndDateChange st = Inr (st\<lparr>end_signal := end_signal st @ [deEnd_date st]\<rparr>)"
proof -
  have "deEnd_setDate (deEnd_date st) st = Inr st"
    using assms(2) by (subst deEnd_setDate.simps) (simp add: Let_def)
  then show ?thesis
    using weekend_to_monday_business [OF assms(1)]
    by (subst onEndDateChange.simps) simp
qed

lemma getWeekdaysOut_business:
  assumes "valid_date d" "1 \<le> n" "getWeekdaysOut d n = Inr e"
  shows "business_day e \<and> d \<le> e \<and> valid_date e"
proof -
  from assms have e: "e = (step_fwd ^^ nat n) (snapped d)" "e \<le> MAXORD"
    by (auto simp: getWeekdaysOut_eq split: if_splits)
  have "business_day e" unfolding e(1) using snapped_props(1) by (rule funpow_step_fwd_business)
  moreover have "snapped d \<le> e" unfolding e(1) by (rule funpow_step_fwd_ge)
  with snapped_props(2) [of d] have "d \<le> e" by linarith
  moreover from this assms(1) e(2) have "valid_date e" by (simp add: valid_date_def)
  ultimately show ?thesis by simp
qed


text \<open>
  Claim C4 (floor of the historical end date). \<open>setEndDateMinimum\<close> makes the date that
  \<open>getWeekdaysOut\<close> returns for the start date and 22 days the minimum of the end date.
  When the end date is below this minimum, Qt raises it to the minimum while it stores
  the new range, and the change runs \<open>onEndDateChange\<close>, which emits \<open>end_signal\<close> with
  the new end date. The guarded statements of \<open>setEndDateMinimum\<close> then find the end
  date at the minimum and are not executed, so the undefined \<open>test_signal\<close> is never
  read. An end date that is not below the minimum stays as it is, and nothing is
  emitted. The start date is one that the widget admits (its own minimum is
  2015-01-01), and the end date is within its range.
\<close>

theorem setEndDateMinimum_raises_and_notifies:
  assumes "valid_date (de_date (deStart st))"
    and "QDATETIMEEDIT_DATE_MIN \<le> de_date (deStart st)"
    and "de_date (deEnd st) \<le> de_maximum (deEnd st)"
    and "getWeekdaysOut (de_date (deStart st)) 22 = Inr end_min"
  shows "\<exists>st'. setEndDateMinimum st = Inr st' \<and> de_minimum (deEnd st') = end_min \<and>
           (if de_date (deEnd st) < end_min
            then de_date (deEnd st') = end_min \<and> end_signal st' = end_signal st @ [end_min]
            else de_date (deEnd st') = de_date (deEnd st) \<and> end_signal st' = end_signal st)"
proof -
  from getWeekdaysOut_business [OF assms(1) _ assms(4)]
  have b: "business_day end_min" and ge: "de_date (deStart st) \<le> end_min" by simp_all
  from ge assms(2) have q: "QDATETIMEEDIT_DATE_MIN \<le> end_min" by linarith
  let ?w = "setRange end_min (de_maximum (deEnd st)) (deEnd st)"
  have w: "de_minimum ?w = end_min" "end_min \<le> de_maximum ?w" "de_date ?w = de_date (deEnd st)"
          "de_maximum (deEnd st) \<le> de_maximum ?w"
    by (simp_all add: setRange_def)
  show ?thesis
  proof (cases "de_date (deEnd st) < end_min")
    case True
    let ?st1 = "st\<lparr>deEnd := ?w\<lparr>de_date := end_min\<rparr>\<rparr>"
    have v: "bound ?w (de_date ?w) = end_min"
      using True w by (simp add: bound_def Let_def)
    have d1: "deEnd_date ?st1 = end_min" by (simp add: deEnd_date_def)
    have "bound (deEnd ?st1) (deEnd_date ?st1) = deEnd_date ?st1"
      using w by (simp add: bound_def Let_def deEnd_date_def)
    from onEndDateChange_settled [OF _ this] b d1
    have slot: "onEndDateChange ?st1 = Inr (?st1\<lparr>end_signal := end_signal ?st1 @ [end_min]\<rparr>)"
      by simp
    have "deEnd_setMinimumDateTime end_min st
          = Inr (?st1\<lparr>end_signal := end_signal ?st1 @ [end_min]\<rparr>)"
      using q v True w(3) slot by (simp add: deEnd_setMinimumDateTime_def Let_def)
    then show ?thesis
      using True assms(4) w(1) by (simp add: setEndDateMinimum_def deEnd_date_def)
  next
    case False
    have v: "bound ?w (de_date ?w) = de_date ?w"
      using False w assms(3) by (simp add: bound_def Let_def)
    have "deEnd_setMinimumDateTime end_min st = Inr (st\<lparr>deEnd := ?w\<rparr>)"
      using q v by (simp add: deEnd_setMinimumDateTime_def Let_def)
    then show ?thesis
      using False assms(4) w by (simp add: setEndDateMinimum_def deEnd_date_def)
  qed
qed

text \<open>
  The widget as its constructor leaves it before the call: the start date 2015-01-01
  (ordinal 735599), the end date 2000-01-01 (ordinal 730120). The minimum and the end
  date become Monday 2015-02-02 (ordinal 735631), and \<open>end_signal\<close> carries that date.
\<close>

theorem setEndDateMinimum_raises_and_notifies_witness:
  "valid_date 735599 \<and> QDATETIMEEDIT_DATE_MIN \<le> 735599 \<and> (730120::int) \<le> 737650
   \<and> getWeekdaysOut 735599 22 = Inr 735631 \<and> (730120::int) < 735631
   \<and> (\<exists>st'. setEndDateMinimum
              \<lparr>deStart = \<lparr>de_date = 735599, de_minimum = 735599, de_maximum = 737620\<rparr>,
               deEnd = \<lparr>de_date = 730120, de_minimum = 639797, de_maximum = 737650\<rparr>,
               end_signal = []\<rparr> = Inr st'
          \<and> de_minimum (deEnd st') = 735631 \<and> de_date (deEnd st') = 735631
          \<and> end_signal st' = [735631])"
proof -
  let ?st = "\<lparr>deStart = \<lparr>de_date = 735599, de_minimum = 735599, de_maximum = 737620\<rparr>,
              deEnd = \<lparr>de_date = 730120, de_minimum = 639797, de_maximum = 737650\<rparr>,
              end_signal = []\<rparr>"
  have h: "valid_date (de_date (deStart ?st))" "QDATETIMEEDIT_DATE_MIN \<le> de_date (deStart ?st)"
    "de_date (deEnd ?st) \<le> de_maximum (deEnd ?st)"
    by (simp_all add: valid_date_def MINORD_def MAXORD_def QDATETIMEEDIT_DATE_MIN_def)
  have a: "getWeekdaysOut (de_date (deStart ?st)) 22 = Inr 735631"
    by (simp add: calendar_eval)
  from setEndDateMinimum_raises_and_notifies [OF h a] h a show ?thesis
    by simp
qed

section \<open>Claims about the calibration\<close>

lemma dropna_Some: "dropna (None # map Some xs) = xs"
  by (simp add: dropna_def List.map_filter_def comp_def)

lemma zip_tl_nth:
  "map (\<lambda>(a, b). f a b) (zip ps (tl ps)) = map (\<lambda>i. f (ps ! (i - 1)) (ps ! i)) [1..<length ps]"
proof (rule nth_equalityI)
  show "length (map (\<lambda>(a, b). f a b) (zip ps (tl ps))) = length (map (\<lambda>i. f (ps ! (i - 1)) (ps ! i)) [1..<length ps])"
    by simp
next
  fix k assume "k < length (map (\<lambda>(a, b). f a b) (zip ps (tl ps)))"
  then have k: "k < length ps - 1" by simp
  then have "zip ps (tl ps) ! k = (ps ! k, ps ! Suc k)" by (simp add: nth_tl)
  with k show "map (\<lambda>(a, b). f a b) (zip ps (tl ps)) ! k = map (\<lambda>i. f (ps ! (i - 1)) (ps ! i)) [1..<length ps] ! k"
    by simp
qed

lemma returns_defined:
  assumes "defined_returns ps" "ps \<noteq> []"
  shows "map (\<lambda>x. np_log (one_minus x)) (pct_change ps) = None # map Some (log_returns ps)"
proof -
  obtain x rest where ps: "ps = x # rest" using assms(2) by (cases ps) simp_all
  have pair: "(if a = 0 then None else np_log (one_minus (Some (b / a - 1)))) = Some (log_return a b)"
    if "(a, b) \<in> set (zip ps (tl ps))" for a b
  proof -
    from that assms(1) have a: "a \<noteq> 0" and b: "b / a < 2"
      by (auto simp: defined_returns_def list_all_iff)
    have e: "1 - (b / a - 1) = 1 - (b - a) / a" using a by (simp add: field_simps)
    from b have pos: "0 < 1 - (b / a - 1)" by simp
    have "np_log (one_minus (Some (b / a - 1))) = Some (ln (1 - (b / a - 1)))"
      unfolding np_log_def one_minus_def using pos by (simp only: option.case if_True)
    then show ?thesis using a unfolding e log_return_def by simp
  qed
  have "map (\<lambda>x. np_log (one_minus x)) (pct_change ps)
        = None # map (\<lambda>(a, b). if a = 0 then None else np_log (one_minus (Some (b / a - 1)))) (zip ps (tl ps))"
    unfolding ps pct_change_def by (simp add: np_log_def one_minus_def split_def)
  also have "map (\<lambda>(a, b). if a = 0 then None else np_log (one_minus (Some (b / a - 1)))) (zip ps (tl ps))
        = map (\<lambda>(a, b). Some (log_return a b)) (zip ps (tl ps))"
    using pair by (intro map_cong) auto
  also have "\<dots> = map Some (log_returns ps)"
    unfolding log_returns_def using zip_tl_nth [of "\<lambda>a b. Some (log_return a b)" ps]
    by (simp add: comp_def)
  finally show ?thesis .
qed


lemmas calibrate_eval =
  calibrate_def iloc_last_def pct_change_def np_log_def one_minus_def
  pd_mean_def pd_std_def dropna_def List.map_filter_def Let_def

text \<open>
  Claim C3 (calibration). Stated for every series of at least two observations, the
  claim fails where a price is at least twice its predecessor: the logarithm of the
  claim has no value there, the cell of that pair is NaN, and \<open>mean\<close> and \<open>std\<close> skip
  it. For the prices 1, 3, 3 the two returns are NaN and 0; the mean is that of the one
  remaining return, and the standard deviation of a single value is NaN. The standard
  deviation is NaN as well for the two prices 4, 2, which have one return.
\<close>

theorem calibrate_log_returns_counterexample:
  "map (\<lambda>x. np_log (one_minus x)) (pct_change [1, 3, 3]) = [None, None, Some 0]
   \<and> calibrate [1, 3, 3] = Inr (3, Some 0, None)
   \<and> calibrate [4, 2] = Inr (2, Some (ln (3 / 2)), None)"
  by (simp add: calibrate_eval)

text \<open>
  Claim C3, amended. For every series of at least two prices with defined returns (for
  positive prices: every price is less than twice its predecessor), the calibration
  returns the last price as
  \<open>p0\<close>, the mean of the returns \<open>ln (1 - (cur - prev) / prev)\<close> of the consecutive
  pairs as \<open>mu\<close>, and their sample standard deviation, with the number of returns less
  one as denominator, as \<open>sig\<close>; for exactly two prices there is one return and \<open>sig\<close>
  is NaN.
\<close>

theorem calibrate_log_returns:
  assumes "2 \<le> length ps" "defined_returns ps"
  shows "calibrate ps
         = Inr (last ps, Some (sample_mean (log_returns ps)),
                if length ps = 2 then None else Some (sample_sd (log_returns ps)))"
proof -
  have ne: "ps \<noteq> []" using assms(1) by auto
  have len: "length (log_returns ps) = length ps - 1" by (simp add: log_returns_def)
  note r = returns_defined [OF assms(2) ne]
  have "length (log_returns ps) \<noteq> 0" using assms(1) len by simp
  then have mean: "pd_mean (None # map Some (log_returns ps)) = Some (sample_mean (log_returns ps))"
    unfolding pd_mean_def dropna_Some Let_def sample_mean_def by simp
  have sd: "pd_std (None # map Some (log_returns ps))
            = (if length ps = 2 then None else Some (sample_sd (log_returns ps)))"
  proof (cases "length ps = 2")
    case True
    then show ?thesis by (simp add: pd_std_def dropna_Some len Let_def)
  next
    case False
    with assms(1) have "\<not> length ps - 1 \<le> 1" by simp
    with False show ?thesis
      by (simp add: pd_std_def dropna_Some len Let_def sample_sd_def sample_mean_def power2_commute)
  qed
  show ?thesis
    unfolding calibrate_def Let_def r mean sd using ne by (simp add: iloc_last_def)
qed

text \<open>
  The prices 4, 2, 1 have the two returns \<open>ln (3 / 2)\<close>: their mean is \<open>ln (3 / 2)\<close> and
  their standard deviation is 0.
\<close>

theorem calibrate_log_returns_witness:
  "(2::nat) \<le> length [4, 2, 1 :: real] \<and> defined_returns [4, 2, 1]
   \<and> calibrate [4, 2, 1] = Inr (1, Some (ln (3 / 2)), Some 0)"
proof -
  have h: "(2::nat) \<le> length [4, 2, 1 :: real]" "defined_returns [4, 2, 1]"
    by (simp_all add: defined_returns_def)
  have r: "log_returns [4, 2, 1] = [ln (3 / 2), ln (3 / 2)]"
    by (simp add: log_returns_def log_return_def upt_conv_Cons)
  from calibrate_log_returns [OF h] h show ?thesis
    unfolding r by (simp add: sample_mean_def sample_sd_def)
qed

text \<open>
  Claim C9 (too short a series). The claim asks for a typed InsufficientData error for
  fewer than two observations. The program has no such error, and for one observation
  the calibration raises nothing: it returns the observation as \<open>p0\<close> and NaN as \<open>mu\<close>
  and as \<open>sig\<close>.
\<close>

theorem calibrate_short_series_counterexample:
  "calibrate [100] = Inr (100, None, None)"
  by (simp add: calibrate_eval)

text \<open>
  Claim C9, amended. For the series without observations the calibration raises
  \<open>IndexError\<close>, when it reads the last price; for a series of one observation it
  returns that observation as \<open>p0\<close>, and \<open>mu\<close> and \<open>sig\<close> are NaN.
\<close>

theorem calibrate_short_series:
  assumes "length ps < 2"
  shows "calibrate ps = (case ps of [] \<Rightarrow> Inl IndexError | p # rest \<Rightarrow> Inr (p, None, None))"
proof (cases ps)
  case Nil
  then show ?thesis by (simp add: calibrate_def iloc_last_def)
next
  case (Cons p rest)
  with assms have "rest = []" by simp
  with Cons show ?thesis
    by (simp add: calibrate_def iloc_last_def pct_change_def np_log_def one_minus_def
        pd_mean_def pd_std_def dropna_def List.map_filter_def)
qed

theorem calibrate_short_series_witness:
  "length ([] :: real list) < 2 \<and> calibrate [] = Inl IndexError
   \<and> length [7 :: real] < 2 \<and> calibrate [7] = Inr (7, None, None)"
proof -
  have h: "length ([] :: real list) < 2" "length [7 :: real] < 2" by simp_all
  from calibrate_short_series [OF h(1)] calibrate_short_series [OF h(2)] h show ?thesis
    by simp
qed

section \<open>Claims about the path simulation\<close>

lemma path_body_first:
  "path_body ppf p0 mu sig (Suc 0) (g, cp, path)
   = Inr (g\<lparr>consumed := Suc (consumed g)\<rparr>, Some p0, path @ [p0])"
  by (simp add: path_body_def rand_def)

lemma path_body_next:
  "path_body ppf p0 mu sig (Suc (Suc t)) (g, Some c, path)
   = Inr (g\<lparr>consumed := Suc (consumed g)\<rparr>, Some (c + (mu * c + sig * c * ppf (draws g (consumed g)))),
          path @ [c + (mu * c + sig * c * ppf (draws g (consumed g)))])"
  by (simp add: path_body_def rand_def Let_def)

lemma path_tail:
  "for_each (path_body ppf p0 mu sig) [Suc (Suc t)..<Suc (Suc t) + k]
      (g\<lparr>consumed := n + Suc t\<rparr>, Some (gbm ppf p0 mu sig (draws g) n t), pre)
   = Inr (g\<lparr>consumed := n + Suc t + k\<rparr>, Some (gbm ppf p0 mu sig (draws g) n (t + k)),
          pre @ map (gbm ppf p0 mu sig (draws g) n) [Suc t..<Suc t + k])"
proof (induction k arbitrary: t pre)
  case 0
  show ?case by simp
next
  case (Suc k)
  have r: "[Suc (Suc t)..<Suc (Suc t) + Suc k] = Suc (Suc t) # [Suc (Suc (Suc t))..<Suc (Suc (Suc t)) + k]"
    by (simp add: upt_conv_Cons)
  have m: "[Suc t..<Suc t + Suc k] = Suc t # [Suc (Suc t)..<Suc (Suc t) + k]"
    by (simp add: upt_conv_Cons)
  show ?case
    unfolding r m using Suc.IH [of "Suc t"]
    by (simp add: path_body_next Let_def)
qed

lemma path_loop:
  "for_each (path_body ppf p0 mu sig) [1..<days + 2] (g, cp, [])
   = Inr (g\<lparr>consumed := consumed g + Suc days\<rparr>,
          Some (gbm ppf p0 mu sig (draws g) (consumed g) days),
          map (gbm ppf p0 mu sig (draws g) (consumed g)) [0..<Suc days])"
proof -
  have r: "[1..<days + 2] = Suc 0 # [Suc (Suc 0)..<Suc (Suc 0) + days]"
    by (simp add: upt_conv_Cons)
  have m: "[0..<Suc days] = 0 # [Suc 0..<Suc 0 + days]"
    by (simp add: upt_conv_Cons)
  have g: "g\<lparr>consumed := Suc (consumed g)\<rparr> = g\<lparr>consumed := consumed g + Suc 0\<rparr>" by simp
  show ?thesis
    unfolding r m using path_tail [where t = 0 and k = days and g = g and n = "consumed g" and pre = "[p0]"
        and ppf = ppf and ?p0.0 = p0 and mu = mu and sig = sig]
    by (simp add: path_body_first)
qed

lemma trial_body_eq:
  "trial_body ppf p0 mu sig days i (g, cp, paths)
   = Inr (g\<lparr>consumed := consumed g + Suc days\<rparr>,
          Some (gbm ppf p0 mu sig (draws g) (consumed g) days),
          paths @ [column ppf p0 mu sig (draws g) days (consumed g)])"
  unfolding trial_body_def column_def path_loop by simp

lemma upt_0_Suc_map: "[0..<Suc n] = 0 # map Suc [0..<n]"
  by (simp add: upt_conv_Cons map_Suc_upt del: upt_Suc)

lemma trials_loop:
  "\<exists>cp'. for_each (trial_body ppf p0 mu sig days) js (g, cp, paths)
     = Inr (g\<lparr>consumed := consumed g + length js * Suc days\<rparr>, cp',
            paths @ map (\<lambda>i. column ppf p0 mu sig (draws g) days (consumed g + i * Suc days))
                        [0..<length js])"
proof (induction js arbitrary: g cp paths)
  case Nil
  show ?case by simp
next
  case (Cons j js)
  let ?g1 = "g\<lparr>consumed := consumed g + Suc days\<rparr>"
  let ?c = "column ppf p0 mu sig (draws g) days"
  from Cons.IH [of ?g1 "Some (gbm ppf p0 mu sig (draws g) (consumed g) days)" "paths @ [?c (consumed g)]"]
  obtain cp' where
    ih: "for_each (trial_body ppf p0 mu sig days) js
           (?g1, Some (gbm ppf p0 mu sig (draws g) (consumed g) days), paths @ [?c (consumed g)])
         = Inr (?g1\<lparr>consumed := consumed ?g1 + length js * Suc days\<rparr>, cp',
                (paths @ [?c (consumed g)]) @
                map (\<lambda>i. column ppf p0 mu sig (draws ?g1) days (consumed ?g1 + i * Suc days))
                    [0..<length js])"
    by blast
  have cols: "map (\<lambda>i. ?c (consumed g + i * Suc days)) [0..<length (j # js)]
        = ?c (consumed g) # map (\<lambda>i. ?c (consumed g + Suc days + i * Suc days)) [0..<length js]"
    by (simp add: upt_0_Suc_map comp_def algebra_simps del: upt_Suc)
  show ?case
    unfolding cols using ih by (simp add: trial_body_eq add.assoc)
qed

lemma simulate_paths_eq:
  "\<exists>cp'. simulate_paths ppf p0 mu sig days trials g
     = Inr (g\<lparr>consumed := consumed g + nat trials * Suc days\<rparr>, cp',
            map (\<lambda>i. column ppf p0 mu sig (draws g) days (consumed g + i * Suc days))
                [0..<nat trials])"
  using trials_loop [of ppf p0 mu sig days "py_range trials" g None "[]"]
  by (simp add: simulate_paths_def py_range_def)

lemma np_hstack_columns:
  assumes "0 < k" "\<And>i. i < k \<Longrightarrow> length (f i) = m"
  shows "np_hstack (map f [0..<k]) = Inr (map (\<lambda>r. map (\<lambda>i. f i ! r) [0..<k]) [0..<m])"
proof -
  obtain k' where k: "k = Suc k'" using assms(1) by (cases k) simp_all
  have l: "map f [0..<k] = f 0 # map (\<lambda>i. f (Suc i)) [0..<k']"
    unfolding k by (simp add: upt_0_Suc_map comp_def del: upt_Suc)
  have all: "list_all (\<lambda>c'. length c' = length (f 0)) (map (\<lambda>i. f (Suc i)) [0..<k'])"
    using assms(2) unfolding k by (simp add: list_all_iff)
  have "np_hstack (map f [0..<k])
        = Inr (map (\<lambda>r. map (\<lambda>col. col ! r) (map f [0..<k])) [0..<length (f 0)])"
    unfolding l np_hstack_def using all by simp
  also have "length (f 0) = m" using assms by simp
  finally show ?thesis by (simp add: comp_def)
qed

lemma gbm_step:
  "1 \<le> t \<Longrightarrow> gbm ppf p0 mu sig u n t
     = gbm ppf p0 mu sig u n (t - 1) + mu * gbm ppf p0 mu sig u n (t - 1)
       + sig * gbm ppf p0 mu sig u n (t - 1) * ppf (u (n + t))"
  by (cases t) (simp_all add: Let_def)

lemma draw_index_inj:
  fixes i t i' t' d :: nat
  assumes "t \<le> d" "t' \<le> d" "i * Suc d + t = i' * Suc d + t'"
  shows "i = i' \<and> t = t'"
proof -
  have "(i * Suc d + t) div Suc d = i + t div Suc d" by (rule div_mult_self3) simp
  moreover have "(i' * Suc d + t') div Suc d = i' + t' div Suc d" by (rule div_mult_self3) simp
  moreover have "t div Suc d = 0" "t' div Suc d = 0" using assms(1,2) by simp_all
  ultimately have "i = i'" using assms(3) by simp
  with assms(3) show ?thesis by simp
qed


text \<open>
  Claim C1 (path ensemble). For every initial price, drift, volatility, horizon
  \<open>days\<close> and at least one trial, the simulation builds \<open>trials\<close> paths of
  \<open>days + 1\<close> prices each and stacks them to an array of \<open>days + 1\<close> rows and \<open>trials\<close>
  columns. Row 0 holds the initial price in every column, and every later price is its
  predecessor plus the drift times the predecessor plus the volatility times the
  predecessor times the shock, the shock being \<open>ppf\<close> of the draw with the index
  \<open>draw_index\<close> of the trial and the step. Every trial consumes \<open>days + 1\<close> draws, the
  first of which is not used, and no draw serves two prices. That the draws are uniform
  and that \<open>ppf\<close> is the inverse normal distribution function is outside the model:
  both are parameters.
\<close>

theorem simulate_ensemble:
  assumes "1 \<le> trials"
  shows "\<exists>path_array g' cp paths.
           simulate_paths ppf p0 mu sig days trials g = Inr (g', cp, paths)
         \<and> length paths = nat trials \<and> list_all (\<lambda>p. length p = days + 1) paths
         \<and> simulate ppf p0 mu sig days trials g = Inr (path_array, g')
         \<and> g' = g\<lparr>consumed := consumed g + nat trials * (days + 1)\<rparr>
         \<and> length path_array = days + 1
         \<and> list_all (\<lambda>row. length row = nat trials) path_array
         \<and> (\<forall>i < nat trials. path_array ! 0 ! i = p0)
         \<and> (\<forall>i < nat trials. \<forall>t. 1 \<le> t \<and> t \<le> days \<longrightarrow>
               path_array ! t ! i
               = path_array ! (t - 1) ! i + mu * path_array ! (t - 1) ! i
                 + sig * path_array ! (t - 1) ! i
                   * ppf (draws g (draw_index (consumed g) days i t)))
         \<and> (\<forall>i t i' t'. t \<le> days \<and> t' \<le> days
               \<and> draw_index (consumed g) days i t = draw_index (consumed g) days i' t'
               \<longrightarrow> i = i' \<and> t = t')"
proof -
  define k where "k = nat trials"
  define f where "f = (\<lambda>i. column ppf p0 mu sig (draws g) days (consumed g + i * Suc days))"
  define arr where "arr = map (\<lambda>r. map (\<lambda>i. f i ! r) [0..<k]) [0..<Suc days]"
  define g' where "g' = g\<lparr>consumed := consumed g + k * Suc days\<rparr>"
  from simulate_paths_eq [of ppf p0 mu sig days trials g] obtain cp' where
    sp: "simulate_paths ppf p0 mu sig days trials g = Inr (g', cp', map f [0..<k])"
    unfolding k_def f_def g'_def by blast
  have k: "0 < k" using assms by (simp add: k_def)
  have len: "\<And>i. i < k \<Longrightarrow> length (f i) = Suc days" by (simp add: f_def column_def)
  have hs: "np_hstack (map f [0..<k]) = Inr arr"
    unfolding arr_def using k len by (rule np_hstack_columns)
  have sim: "simulate ppf p0 mu sig days trials g = Inr (arr, g')"
    unfolding simulate_def sp using hs by simp
  have entry: "arr ! t ! i = gbm ppf p0 mu sig (draws g) (consumed g + i * Suc days) t"
    if "t \<le> days" "i < k" for t i
  proof -
    have t: "t < length [0..<Suc days]" using that(1) by simp
    have "arr ! t = map (\<lambda>i. f i ! t) [0..<k]"
      unfolding arr_def using t by (simp only: nth_map nth_upt length_upt) simp
    then have "arr ! t ! i = f i ! t" using that(2) by simp
    also have "\<dots> = gbm ppf p0 mu sig (draws g) (consumed g + i * Suc days) t"
      unfolding f_def column_def using t by (simp only: nth_map nth_upt length_upt) simp
    finally show ?thesis .
  qed
  have rows: "list_all (\<lambda>row. length row = k) arr"
    by (simp add: arr_def list_all_iff del: upt_Suc)
  have first: "\<forall>i < k. arr ! 0 ! i = p0"
    using entry [of 0] by simp
  have step: "\<forall>i < k. \<forall>t. 1 \<le> t \<and> t \<le> days \<longrightarrow>
      arr ! t ! i = arr ! (t - 1) ! i + mu * arr ! (t - 1) ! i
        + sig * arr ! (t - 1) ! i * ppf (draws g (draw_index (consumed g) days i t))"
  proof (intro allI impI)
    fix i t assume i: "i < k" and t: "1 \<le> t \<and> t \<le> days"
    from t have t1: "t - 1 \<le> days" "1 \<le> t" "t \<le> days" by linarith+
    have e: "draw_index (consumed g) days i t = consumed g + i * Suc days + t"
      by (simp add: draw_index_def)
    show "arr ! t ! i = arr ! (t - 1) ! i + mu * arr ! (t - 1) ! i
        + sig * arr ! (t - 1) ! i * ppf (draws g (draw_index (consumed g) days i t))"
      unfolding entry [OF t1(3) i] entry [OF t1(1) i] e
      by (rule gbm_step [OF t1(2)])
  qed
  have fresh: "\<forall>i t i' t'. t \<le> days \<and> t' \<le> days
      \<and> draw_index (consumed g) days i t = draw_index (consumed g) days i' t'
      \<longrightarrow> i = i' \<and> t = t'"
  proof (intro allI impI)
    fix i t i' t'
    assume a: "t \<le> days \<and> t' \<le> days
      \<and> draw_index (consumed g) days i t = draw_index (consumed g) days i' t'"
    then have "i * Suc days + t = i' * Suc days + t'" by (simp add: draw_index_def)
    with a show "i = i' \<and> t = t'" using draw_index_inj [of t days t' i i'] by blast
  qed
  have paths: "length (map f [0..<k]) = k" "list_all (\<lambda>p. length p = days + 1) (map f [0..<k])"
    by (simp_all add: list_all_iff f_def column_def)
  have la: "length arr = days + 1" by (simp add: arr_def)
  have g: "g' = g\<lparr>consumed := consumed g + k * (days + 1)\<rparr>" by (simp add: g'_def)
  show ?thesis
    using sp sim g paths la rows first step fresh unfolding k_def [symmetric] by blast
qed

text \<open>
  Two trials over two days from the price 100 with drift 1/10, every draw being 1/2 and
  \<open>ppf\<close> mapping 1/2 to the shock 0: both paths are 100, 110, 121, and six draws are
  consumed.
\<close>

theorem simulate_ensemble_witness:
  "(1::int) \<le> 2
   \<and> simulate (\<lambda>u. u - 1 / 2) 100 (1 / 10) (1 / 5) 2 2 \<lparr>draws = (\<lambda>n. 1 / 2), consumed = 0\<rparr>
     = Inr ([[100, 100], [110, 110], [121, 121]], \<lparr>draws = (\<lambda>n. 1 / 2), consumed = 6\<rparr>)"
proof -
  have h: "(1::int) \<le> 2" by simp
  from simulate_ensemble [OF h, of "\<lambda>u. u - 1 / 2" 100 "1 / 10" "1 / 5" 2
      "\<lparr>draws = (\<lambda>n. 1 / 2), consumed = 0\<rparr>"]
  obtain path_array where
    s: "simulate (\<lambda>u. u - 1 / 2) 100 (1 / 10) (1 / 5) 2 2 \<lparr>draws = (\<lambda>n. 1 / 2), consumed = 0\<rparr>
        = Inr (path_array, \<lparr>draws = (\<lambda>n. 1 / 2), consumed = 6\<rparr>)"
    by auto
  have "simulate (\<lambda>u. u - 1 / 2) 100 (1 / 10) (1 / 5) 2 2 \<lparr>draws = (\<lambda>n. 1 / 2), consumed = 0\<rparr>
        = Inr ([[100, 100], [110, 110], [121, 121]], \<lparr>draws = (\<lambda>n. 1 / 2), consumed = 6\<rparr>)"
    by (simp add: simulate_def simulate_paths_def trial_body_def path_body_def rand_def
        np_hstack_def py_range_def upt_conv_Cons Let_def)
  with h s show ?thesis by simp
qed

section \<open>Claims about the Value-at-Risk\<close>









end
